theory Spec2Isabelle
  imports Main "HOL-Library.Word" "HOL-Library.Signed_Division"
begin

section \<open>Integers and the callables of main.cpp\<close>

text \<open>
  The element type of both vectors is the C++ \<open>int\<close>, a 32-bit two's complement integer,
  read as a signed value by \<open>sint\<close>.
\<close>

type_synonym i32 = "32 word"

definition INT_MAX :: i32 where
  "INT_MAX = 2147483647"

text \<open>
  The C++ operator \<open>%\<close> on \<open>int\<close>: the remainder of the division that truncates towards
  zero, so that the remainder has the sign of the dividend. Both uses in main.cpp divide
  by the constant 2; a zero divisor, undefined in C++, does not occur.
\<close>

definition c_rem :: "i32 \<Rightarrow> i32 \<Rightarrow> i32" where
  "c_rem a b = word_of_int (sint a smod sint b)"

text \<open>main.cpp, line 51: \<^verbatim>\<open>auto is_even = [](auto const n) { return n % 2 == 0; };\<close>\<close>

definition is_even :: "i32 \<Rightarrow> bool" where
  "is_even n = (c_rem n 2 = 0)"

text \<open>main.cpp, line 81: \<^verbatim>\<open>const auto even = [](int i) { return 0 == i % 2; };\<close>\<close>

definition even_i :: "i32 \<Rightarrow> bool" where
  "even_i i = (0 = c_rem i 2)"

text \<open>
  A callable that a view or an algorithm invokes on an element of the vector receives a
  reference to that element. Its model takes the value found in the element and returns
  the value it leaves there together with its result; \<open>None\<close> is undefined behaviour
  inside the callable (signed overflow).
\<close>

type_synonym 'r callable = "i32 \<Rightarrow> (i32 \<times> 'r) option"

text \<open>
  main.cpp, line 57: \<^verbatim>\<open>[](auto n) { return ++n; }\<close>. The parameter is taken by value:
  the increment works on the copy \<open>n\<close>, the element keeps its value.
\<close>

definition transform_fn :: "i32 callable" where
  "transform_fn n = (if n = INT_MAX then None else (let n' = n + 1 in Some (n, n')))"

text \<open>
  main.cpp, line 85: \<^verbatim>\<open>[](int & i) { i += 1; }\<close>. The parameter is a reference: the
  element itself is incremented, and nothing is returned.
\<close>

definition for_each_fn :: "unit callable" where
  "for_each_fn i = (if i = INT_MAX then None else Some (i + 1, ()))"

text \<open>
  An arbitrary mapper of the pipeline, a function from \<open>int\<close> to \<open>int\<close> that takes its
  argument by value, and an arbitrary mutator of the traversal, which overwrites the
  element it is given.
\<close>

definition by_value :: "(i32 \<Rightarrow> i32) \<Rightarrow> i32 callable" where
  "by_value g n = Some (n, g n)"

definition by_reference :: "(i32 \<Rightarrow> i32) \<Rightarrow> unit callable" where
  "by_reference m i = Some (m i, ())"

section \<open>The vector a view refers to\<close>

text \<open>
  A view holds a reference to the vector, never a copy, so every operation of a view
  takes the vector as it is at the time of the operation. Iterators into the vector are
  positions \<open>0 .. length\<close>. Beside the elements the store records, in order, the
  positions at which a predicate was evaluated and at which a callable was invoked.
\<close>

record store =
  elems :: "i32 list"
  tests :: "nat list"
  calls :: "nat list"

definition fresh :: "i32 list \<Rightarrow> store" where
  "fresh xs = \<lparr>elems = xs, tests = [], calls = []\<rparr>"

text \<open>Dereferencing a vector iterator; at or past the end it is undefined.\<close>

definition deref :: "store \<Rightarrow> nat \<Rightarrow> i32 option" where
  "deref s i = (if i < length (elems s) then Some (elems s ! i) else None)"

definition eval_pred :: "(i32 \<Rightarrow> bool) \<Rightarrow> store \<Rightarrow> nat \<Rightarrow> (bool \<times> store) option" where
  "eval_pred p s i =
     (case deref s i of
        None \<Rightarrow> None
      | Some x \<Rightarrow> Some (p x, s\<lparr>tests := tests s @ [i]\<rparr>))"

definition invoke :: "'r callable \<Rightarrow> store \<Rightarrow> nat \<Rightarrow> ('r \<times> store) option" where
  "invoke f s i =
     (case deref s i of
        None \<Rightarrow> None
      | Some x \<Rightarrow>
          (case f x of
             None \<Rightarrow> None
           | Some (x', r) \<Rightarrow> Some (r, s\<lparr>elems := (elems s)[i := x'], calls := calls s @ [i]\<rparr>)))"

section \<open>The filter view\<close>

text \<open>
  \<^verbatim>\<open>std::ranges::find_if\<close>: \<^verbatim>\<open>for (; first != last; ++first) if (pred(*first)) break;\<close>
\<close>

function find_if :: "(i32 \<Rightarrow> bool) \<Rightarrow> store \<Rightarrow> nat \<Rightarrow> nat \<Rightarrow> (nat \<times> store) option" where
  "find_if p s first lst =
     (if first = lst then Some (first, s)
      else (case eval_pred p s first of
              None \<Rightarrow> None
            | Some (b, s') \<Rightarrow> if b then Some (first, s') else find_if p s' (first + 1) lst))"
  by pat_completeness auto
termination
  by (relation "measure (\<lambda>(p, s, first, lst). length (elems s) - first)")
     (auto simp: eval_pred_def deref_def split: if_splits)

text \<open>
  \<^verbatim>\<open>filter_view::begin()\<close> searches the first element that satisfies the predicate and
  remembers its position in the view: a later call returns the remembered position.
  \<^verbatim>\<open>filter_view::end()\<close> is the end of the vector.
\<close>

definition filter_begin ::
  "(i32 \<Rightarrow> bool) \<Rightarrow> nat option \<Rightarrow> store \<Rightarrow> (nat \<times> nat option \<times> store) option" where
  "filter_begin p cached s =
     (case cached of
        Some i \<Rightarrow> Some (i, cached, s)
      | None \<Rightarrow>
          (case find_if p s 0 (length (elems s)) of
             None \<Rightarrow> None
           | Some (i, s') \<Rightarrow> Some (i, Some i, s')))"

definition filter_end :: "store \<Rightarrow> nat" where
  "filter_end s = length (elems s)"

text \<open>
  The iterator of the filter view. \<^verbatim>\<open>operator++\<close>:
  \<^verbatim>\<open>current = find_if(++current, end, pred)\<close>; \<^verbatim>\<open>operator--\<close>:
  \<^verbatim>\<open>do --current; while (!pred(*current));\<close>. Stepping forward from the end and
  stepping back from the first position of the vector are undefined.
\<close>

definition filter_next :: "(i32 \<Rightarrow> bool) \<Rightarrow> store \<Rightarrow> nat \<Rightarrow> (nat \<times> store) option" where
  "filter_next p s cur =
     (if cur < length (elems s) then find_if p s (cur + 1) (filter_end s) else None)"

fun filter_prev :: "(i32 \<Rightarrow> bool) \<Rightarrow> store \<Rightarrow> nat \<Rightarrow> (nat \<times> store) option" where
  "filter_prev p s 0 = None"
| "filter_prev p s (Suc i) =
     (case eval_pred p s i of
        None \<Rightarrow> None
      | Some (b, s') \<Rightarrow> if b then Some (i, s') else filter_prev p s' i)"

section \<open>The pipeline: filter, transform, reverse\<close>

text \<open>
  The iterator of the transform view steps as the filter iterator below it does, and
  dereferencing it invokes the mapper on the element the filter iterator denotes. The
  reverse view runs from the end of the view below it to its begin: its iterator holds
  an iterator \<open>cur\<close> of the view below, dereferences the position before \<open>cur\<close>
  (\<^verbatim>\<open>tmp = current; --tmp; return *tmp;\<close>) and advances by stepping \<open>cur\<close> back.
\<close>

definition transform_deref :: "'r callable \<Rightarrow> store \<Rightarrow> nat \<Rightarrow> ('r \<times> store) option" where
  "transform_deref f s cur = invoke f s cur"

definition reverse_begin :: "store \<Rightarrow> nat" where
  "reverse_begin s = filter_end s"

definition reverse_end ::
  "(i32 \<Rightarrow> bool) \<Rightarrow> nat option \<Rightarrow> store \<Rightarrow> (nat \<times> nat option \<times> store) option" where
  "reverse_end p cached s = filter_begin p cached s"

definition reverse_deref ::
  "(i32 \<Rightarrow> bool) \<Rightarrow> 'r callable \<Rightarrow> store \<Rightarrow> nat \<Rightarrow> ('r \<times> store) option" where
  "reverse_deref p f s cur =
     (case filter_prev p s cur of
        None \<Rightarrow> None
      | Some (tmp, s') \<Rightarrow> transform_deref f s' tmp)"

definition reverse_next :: "(i32 \<Rightarrow> bool) \<Rightarrow> store \<Rightarrow> nat \<Rightarrow> (nat \<times> store) option" where
  "reverse_next p s cur = filter_prev p s cur"

text \<open>
  main.cpp, lines 28 to 34, \<^verbatim>\<open>show\<close> applied to the pipeline:
  \<^verbatim>\<open>for (auto const & v : container) std::cout << std::setw(2) << v;\<close>, that is
  \<^verbatim>\<open>b = container.begin(); e = container.end(); for (; b != e; ++b) { v = *b; ... }\<close>.
  The values written to the console are collected in \<open>out\<close>.
\<close>

function show_loop ::
  "(i32 \<Rightarrow> bool) \<Rightarrow> i32 callable \<Rightarrow> store \<Rightarrow> nat \<Rightarrow> nat \<Rightarrow> i32 list \<Rightarrow> (i32 list \<times> store) option" where
  "show_loop p f s cur e out =
     (if cur = e then Some (out, s)
      else (case reverse_deref p f s cur of
              None \<Rightarrow> None
            | Some (v, s1) \<Rightarrow>
                (case reverse_next p s1 cur of
                   None \<Rightarrow> None
                 | Some (cur', s2) \<Rightarrow> show_loop p f s2 cur' e (out @ [v]))))"
  by pat_completeness auto
termination
proof (relation "measure (\<lambda>(p, f, s, cur, e, out). cur)")
  show "wf (measure (\<lambda>(p, f, s, cur, e, out). cur))"
    by simp
next
  fix p :: "i32 \<Rightarrow> bool" and f :: "i32 callable" and s s1 s2 :: store
    and cur e cur' :: nat and out :: "i32 list" and x :: "i32 \<times> store" and v :: i32
    and y :: "nat \<times> store"
  assume "reverse_next p s1 cur = Some y" and "(cur', s2) = y"
  then have prev: "filter_prev p s1 cur = Some (cur', s2)"
    by (simp add: reverse_next_def)
  have "filter_prev p t i = Some (j, t') \<Longrightarrow> j < i" for t t' i j
  proof (induction i arbitrary: t)
    case 0
    then show ?case by simp
  next
    case (Suc i)
    then show ?case
      by (fastforce split: option.splits prod.splits if_splits)
  qed
  from this [OF prev] have "cur' < cur" .
  then show "((p, f, s2, cur', e, out @ [v]), (p, f, s, cur, e, out))
      \<in> measure (\<lambda>(p, f, s, cur, e, out). cur)"
    by simp
qed

text \<open>
  Consuming the pipeline once. \<open>cached\<close> is the begin position remembered by the filter
  view inside the pipeline object; the object is handed to \<^verbatim>\<open>show\<close> by reference, so
  what it remembers is returned with the output.
\<close>

definition show_view ::
  "(i32 \<Rightarrow> bool) \<Rightarrow> i32 callable \<Rightarrow> nat option \<Rightarrow> store
     \<Rightarrow> (i32 list \<times> nat option \<times> store) option" where
  "show_view p f cached s =
     (let b = reverse_begin s in
      case reverse_end p cached s of
        None \<Rightarrow> None
      | Some (e, cached', s') \<Rightarrow>
          (case show_loop p f s' b e [] of
             None \<Rightarrow> None
           | Some (out, s'') \<Rightarrow> Some (out, cached', s'')))"

text \<open>
  main.cpp, lines 55 to 58: \<^verbatim>\<open>numbers | filter(is_even) | transform(...) | reverse\<close>
  builds the view objects. Nothing is read from the vector: the filter view starts with
  no begin position remembered.
\<close>

definition build_pipeline :: "store \<Rightarrow> nat option" where
  "build_pipeline s = None"

text \<open>main.cpp, lines 46 to 61.\<close>

definition numbers :: "i32 list" where
  "numbers = [6, 5, 4, 3, 2, 1]"

definition main_results :: "(i32 list \<times> nat option \<times> store) option" where
  "main_results =
     (let s = fresh numbers; results = build_pipeline s
      in show_view is_even transform_fn results s)"

section \<open>The mutating traversal\<close>

text \<open>
  \<^verbatim>\<open>std::ranges::for_each\<close> over a filter view:
  \<^verbatim>\<open>for (; first != last; ++first) invoke(f, *first);\<close> with \<open>first\<close> and \<open>last\<close> the
  begin and the end of the view. The view is a temporary, it remembers nothing at the
  start and is dropped at the end. The model follows the operations the library
  performs on the vector in this single pass: the predicate is evaluated on an element
  when the iterator reaches it, before the callable is invoked on it, and is not
  evaluated on it again. (The C++ standard itself gives no meaning to a mutation through
  a filter iterator after which the element fails the predicate.)
\<close>

function for_each_loop ::
  "(i32 \<Rightarrow> bool) \<Rightarrow> unit callable \<Rightarrow> store \<Rightarrow> nat \<Rightarrow> nat \<Rightarrow> store option" where
  "for_each_loop p f s first lst =
     (if first = lst then Some s
      else (case invoke f s first of
              None \<Rightarrow> None
            | Some (u, s1) \<Rightarrow>
                (case filter_next p s1 first of
                   None \<Rightarrow> None
                 | Some (nxt, s2) \<Rightarrow> for_each_loop p f s2 nxt lst)))"
  by pat_completeness auto
termination
proof (relation "measure (\<lambda>(p, f, s, first, lst). length (elems s) - first)")
  show "wf (measure (\<lambda>(p, f, s, first, lst). length (elems s) - first))"
    by simp
next
  fix p :: "i32 \<Rightarrow> bool" and f :: "unit callable" and s s1 s2 :: store
    and first lst nxt :: nat and x :: "unit \<times> store" and u :: unit and y :: "nat \<times> store"
  assume inv: "invoke f s first = Some x" "(u, s1) = x"
    and nx: "filter_next p s1 first = Some y" "(nxt, s2) = y"
  from inv have len1: "first < length (elems s)" "length (elems s1) = length (elems s)"
    by (auto simp: invoke_def deref_def split: if_splits option.splits)
  have mono: "find_if q t i l = Some (j, t') \<Longrightarrow> i \<le> j \<and> elems t' = elems t" for q t t' i j l
  proof (induction q t i l rule: find_if.induct)
    case (1 q t i l)
    show ?case
    proof (cases "i = l")
      case True
      with "1.prems" show ?thesis by simp
    next
      case False
      with "1.prems" obtain b t1 where ev: "eval_pred q t i = Some (b, t1)"
        by (auto split: option.splits)
      then have el: "elems t1 = elems t"
        by (auto simp: eval_pred_def split: option.splits)
      show ?thesis
      proof (cases b)
        case True
        with "1.prems" False ev el show ?thesis by simp
      next
        case nb: False
        with "1.prems" False ev have "find_if q t1 (i + 1) l = Some (j, t')"
          by simp
        with "1.IH" [OF False ev refl nb] el show ?thesis
          by simp
      qed
    qed
  qed
  from nx have "find_if p s1 (first + 1) (filter_end s1) = Some (nxt, s2)"
    by (auto simp: filter_next_def split: if_splits)
  from mono [OF this] len1
  have "first < nxt" "length (elems s2) = length (elems s)"
    by simp_all
  with len1 show "((p, f, s2, nxt, lst), (p, f, s, first, lst))
      \<in> measure (\<lambda>(p, f, s, first, lst). length (elems s) - first)"
    by simp
qed

definition for_each :: "(i32 \<Rightarrow> bool) \<Rightarrow> unit callable \<Rightarrow> store \<Rightarrow> store option" where
  "for_each p f s =
     (case filter_begin p None s of
        None \<Rightarrow> None
      | Some (first, cached, s1) \<Rightarrow> for_each_loop p f s1 first (filter_end s1))"

text \<open>main.cpp, lines 78 to 85.\<close>

definition use_for_each :: "store option" where
  "use_for_each = for_each even_i for_each_fn (fresh [1, 2, 3, 4, 5])"

section \<open>Functions on lists used to state the results\<close>

text \<open>
  The position of the first element that satisfies the predicate (the length of the list
  when there is none), the positions, counted from \<open>k\<close>, of the elements that satisfy
  it, and the value an element has after the traversal.
\<close>

definition first_match :: "(i32 \<Rightarrow> bool) \<Rightarrow> i32 list \<Rightarrow> nat" where
  "first_match p xs = length (takeWhile (\<lambda>x. \<not> p x) xs)"

fun match_positions :: "(i32 \<Rightarrow> bool) \<Rightarrow> nat \<Rightarrow> i32 list \<Rightarrow> nat list" where
  "match_positions p k [] = []"
| "match_positions p k (x # xs) = (if p x then [k] else []) @ match_positions p (Suc k) xs"

text \<open>The last position before \<open>cur\<close> whose element satisfies the predicate.\<close>

fun prev_match :: "(i32 \<Rightarrow> bool) \<Rightarrow> i32 list \<Rightarrow> nat \<Rightarrow> nat" where
  "prev_match p xs 0 = 0"
| "prev_match p xs (Suc i) = (if p (xs ! i) then i else prev_match p xs i)"

definition mutated :: "(i32 \<Rightarrow> bool) \<Rightarrow> (i32 \<Rightarrow> i32) \<Rightarrow> i32 \<Rightarrow> i32" where
  "mutated p m x = (if p x then m x else x)"

section \<open>The evenness predicates\<close>

lemma smod_two_cases: "(k::int) smod 2 = 0 \<or> k smod 2 = 1 \<or> k smod 2 = - 1"
  by (auto simp: signed_modulo_int_def sgn_if split: if_splits)

lemma smod_two_zero_iff: "(k::int) smod 2 = 0 \<longleftrightarrow> even k"
  by (auto simp: signed_modulo_int_def sgn_if split: if_splits)

lemma c_rem_two_zero_iff: "c_rem n 2 = 0 \<longleftrightarrow> even (sint n)"
  using smod_two_cases [of "sint n"] smod_two_zero_iff [of "sint n"]
  by (auto simp: c_rem_def)

lemma is_even_iff: "is_even n \<longleftrightarrow> even (sint n)"
  by (simp add: is_even_def c_rem_two_zero_iff)

lemma even_i_iff: "even_i i \<longleftrightarrow> even (sint i)"
  using c_rem_two_zero_iff [of i] by (auto simp: even_i_def)

text \<open>
  Claim C10. The evenness predicate of the pipeline (\<open>is_even\<close>) and the one of the
  traversal (\<open>even_i\<close>) hold exactly for the integers that are mathematically even,
  negative ones included, although they test the truncating remainder: they hold for
  \<open>-2\<close> and \<open>0\<close> and fail for \<open>-3\<close>.
\<close>

theorem evenness_predicates_correct:
  "is_even n = even (sint n) \<and> even_i n = even (sint n)
   \<and> is_even (- 2) \<and> is_even 0 \<and> \<not> is_even (- 3)
   \<and> even_i (- 2) \<and> even_i 0 \<and> \<not> even_i (- 3)"
  by (simp add: is_even_iff even_i_iff)

section \<open>The two runs of main.cpp\<close>

text \<open>
  Claim C1. For the vector \<open>[6,5,4,3,2,1]\<close> of \<open>main\<close>, with the predicate \<open>is_even\<close>
  and the incrementing mapper, consuming the pipeline (filter, transform, reverse)
  writes exactly \<open>[3,5,7]\<close>.
\<close>

theorem main_results_3_5_7:
  "map_option fst main_results = Some [3, 5, 7]"
  by code_simp

text \<open>
  Claim C2, as amended. For the vector \<open>[1,2,3,4,5]\<close> of \<open>use_for_each\<close>, the
  traversal increments both even elements, \<open>2\<close> and \<open>4\<close>: the vector is
  \<open>[1,3,3,5,5]\<close> afterwards. The predicate was evaluated once at each position and
  the mutator invoked at positions 1 and 3.
\<close>

theorem use_for_each_1_3_3_5_5:
  "use_for_each = Some \<lparr>elems = [1, 3, 3, 5, 5], tests = [0, 1, 2, 3, 4], calls = [1, 3]\<rparr>"
  by code_simp

text \<open>
  Claim C2, as stated, fails: the vector after the traversal is not \<open>[1,3,3,4,5]\<close>,
  the element \<open>4\<close> does not keep its value.
\<close>

theorem use_for_each_not_1_3_3_4_5:
  "map_option elems use_for_each \<noteq> Some [1, 3, 3, 4, 5]"
  by code_simp

section \<open>Facts about the list functions\<close>

lemma first_match_Nil [simp]: "first_match p [] = 0"
  by (simp add: first_match_def)

lemma first_match_Cons [simp]:
  "first_match p (x # xs) = (if p x then 0 else Suc (first_match p xs))"
  by (simp add: first_match_def)

lemma first_match_le: "first_match p xs \<le> length xs"
  by (simp add: first_match_def length_takeWhile_le)

lemma match_positions_skip:
  "match_positions p k xs =
   match_positions p (k + first_match p xs) (dropWhile (\<lambda>x. \<not> p x) xs)"
  by (induction xs arbitrary: k) auto

lemma match_positions_filter:
  "match_positions p k xs = map (\<lambda>i. k + i) (filter (\<lambda>i. p (xs ! i)) [0..<length xs])"
proof (induction xs arbitrary: k)
  case Nil
  show ?case by simp
next
  case (Cons x xs)
  have "[0..<length (x # xs)] = 0 # map Suc [0..<length xs]"
    by (simp add: upt_conv_Cons map_Suc_upt del: upt_Suc)
  then show ?case
    by (simp add: Cons.IH filter_map comp_def)
qed

lemma map_mutated_skip:
  "map (mutated p m) xs =
   takeWhile (\<lambda>x. \<not> p x) xs @ map (mutated p m) (dropWhile (\<lambda>x. \<not> p x) xs)"
  by (induction xs) (auto simp: mutated_def)

lemma dropWhile_hd_match:
  "dropWhile (\<lambda>x. \<not> p x) xs \<noteq> [] \<Longrightarrow> p (hd (dropWhile (\<lambda>x. \<not> p x) xs))"
  using hd_dropWhile [of "\<lambda>x. \<not> p x" xs] by simp

lemma upt_join: "a \<le> b \<Longrightarrow> b \<le> c \<Longrightarrow> [a..<b] @ [b..<c] = [a..<c]"
  by (metis le_Suc_ex upt_add_eq_append)

section \<open>The steps of the filter iterator\<close>

lemma eval_pred_in_range:
  "i < length (elems s) \<Longrightarrow>
   eval_pred p s i = Some (p (elems s ! i), s\<lparr>tests := tests s @ [i]\<rparr>)"
  by (simp add: eval_pred_def deref_def)

lemma invoke_in_range:
  "i < length (elems s) \<Longrightarrow> f (elems s ! i) = Some (x', r) \<Longrightarrow>
   invoke f s i = Some (r, s\<lparr>elems := (elems s)[i := x'], calls := calls s @ [i]\<rparr>)"
  by (simp add: invoke_def deref_def)

declare find_if.simps [simp del]

text \<open>
  Searching from the end of a prefix \<open>pre\<close> of the vector stops at the first element
  of the rest that satisfies the predicate, or at the end, and evaluates the predicate
  once at every position it passes.
\<close>

lemma find_if_split:
  "elems s = pre @ ys \<Longrightarrow>
   find_if p s (length pre) (length pre + length ys) =
     Some (length pre + first_match p ys,
           s\<lparr>tests := tests s @
                [length pre ..< min (Suc (length pre + first_match p ys)) (length pre + length ys)]\<rparr>)"
proof (induction ys arbitrary: pre s)
  case Nil
  then show ?case by (simp add: find_if.simps [of p s])
next
  case (Cons y ys)
  let ?n = "length pre"
  from Cons.prems have ev: "eval_pred p s ?n = Some (p y, s\<lparr>tests := tests s @ [?n]\<rparr>)"
    by (simp add: eval_pred_in_range)
  show ?case
  proof (cases "p y")
    case True
    with ev show ?thesis by (simp add: find_if.simps [of p s])
  next
    case False
    have "elems (s\<lparr>tests := tests s @ [?n]\<rparr>) = (pre @ [y]) @ ys"
      using Cons.prems by simp
    from Cons.IH [OF this] False ev first_match_le [of p ys] show ?thesis
      by (simp add: find_if.simps [of p s] upt_conv_Cons min_def)
  qed
qed

section \<open>The mutating traversal, for every vector\<close>

declare for_each_loop.simps [simp del]

text \<open>
  The loop of the traversal, started at the end of a prefix \<open>pre\<close> with the iterator
  on an element that satisfies the predicate (or at the end of the vector): the rest
  \<open>ys\<close> of the vector is mutated where the predicate holds, the predicate is evaluated
  once at every later position, and the callable is invoked once at every match.
\<close>

lemma for_each_loop_split:
  "elems s = pre @ ys \<Longrightarrow> (ys \<noteq> [] \<longrightarrow> p (hd ys)) \<Longrightarrow>
   (\<forall>x\<in>set ys. p x \<longrightarrow> f x = Some (m x, ())) \<Longrightarrow>
   for_each_loop p f s (length pre) (length pre + length ys) =
     Some (s\<lparr>elems := pre @ map (mutated p m) ys,
             tests := tests s @ [Suc (length pre) ..< length pre + length ys],
             calls := calls s @ match_positions p (length pre) ys\<rparr>)"
proof (induction "length ys" arbitrary: pre ys s rule: less_induct)
  case less
  let ?n = "length pre"
  show ?case
  proof (cases ys)
    case Nil
    with less.prems(1) show ?thesis
      by (simp add: for_each_loop.simps [of p f s])
  next
    case (Cons y zs)
    let ?tw = "takeWhile (\<lambda>x. \<not> p x) zs" and ?dw = "dropWhile (\<lambda>x. \<not> p x) zs"
    let ?k = "first_match p zs"
    let ?N = "?n + length ys"
    from Cons less.prems have py: "p y" and fy: "f y = Some (m y, ())"
      by simp_all
    let ?s1 = "s\<lparr>elems := pre @ m y # zs, calls := calls s @ [?n]\<rparr>"
    have inv: "invoke f s ?n = Some ((), ?s1)"
      using less.prems(1) Cons fy by (simp add: invoke_in_range)
    have e1: "elems ?s1 = (pre @ [m y]) @ zs"
      by simp
    let ?j = "Suc ?n + ?k"
    let ?s2 = "?s1\<lparr>tests := tests s @ [Suc ?n ..< min (Suc ?j) ?N]\<rparr>"
    have nx: "filter_next p ?s1 ?n = Some (?j, ?s2)"
      using find_if_split [OF e1, of p] Cons
      by (simp add: filter_next_def filter_end_def)
    have k: "?k = length ?tw"
      by (simp add: first_match_def)
    have zs: "zs = ?tw @ ?dw"
      by simp
    have e2: "elems ?s2 = (pre @ m y # ?tw) @ ?dw"
      by simp
    have l2: "length (pre @ m y # ?tw) = ?j"
      by (simp add: k)
    have "length ?tw + length ?dw = length zs"
      by (metis length_append takeWhile_dropWhile_id)
    then have N: "?j + length ?dw = ?N"
      using Cons by (simp add: k)
    have "length ?dw < length ys"
      using Cons length_dropWhile_le [of "\<lambda>x. \<not> p x" zs] by simp
    moreover have "?dw \<noteq> [] \<longrightarrow> p (hd ?dw)"
      using dropWhile_hd_match [of p zs] by blast
    moreover have "\<forall>x\<in>set ?dw. p x \<longrightarrow> f x = Some (m x, ())"
      using less.prems(3) Cons set_dropWhileD [of _ "\<lambda>x. \<not> p x" zs] by auto
    ultimately have rec: "for_each_loop p f ?s2 ?j ?N =
      Some (?s2\<lparr>elems := (pre @ m y # ?tw) @ map (mutated p m) ?dw,
                tests := tests ?s2 @ [Suc ?j ..< ?N],
                calls := calls ?s2 @ match_positions p ?j ?dw\<rparr>)"
      using less.hyps [OF _ e2] unfolding l2 N by blast
    have el: "(pre @ m y # ?tw) @ map (mutated p m) ?dw = pre @ map (mutated p m) ys"
      using map_mutated_skip [of p m zs] Cons py by (simp add: mutated_def)
    have jN: "?j \<le> ?N"
      using N by simp
    have ts: "[Suc ?n ..< min (Suc ?j) ?N] @ [Suc ?j ..< ?N] = [Suc ?n ..< ?N]"
    proof (cases "?j < ?N")
      case True
      then have "[Suc ?n ..< Suc ?j] @ [Suc ?j ..< ?N] = [Suc ?n ..< ?N]"
        by (intro upt_join) simp_all
      with True show ?thesis by (simp add: min_def)
    next
      case False
      with jN have "?j = ?N" by simp
      then show ?thesis by simp
    qed
    have cs: "[?n] @ match_positions p ?j ?dw = match_positions p ?n ys"
      using match_positions_skip [of p "Suc ?n" zs] Cons py by simp
    have ne: "ys \<noteq> []"
      using Cons by simp
    show ?thesis
      using ne inv nx rec el ts cs
      by (simp add: for_each_loop.simps [of p f s])
  qed
qed


text \<open>
  The whole traversal, for a callable that succeeds with \<open>m x\<close> left in the element
  wherever the predicate holds in the vector.
\<close>

lemma for_each_result:
  assumes f: "\<forall>x\<in>set (elems s). p x \<longrightarrow> f x = Some (m x, ())"
  shows "for_each p f s =
     Some (s\<lparr>elems := map (mutated p m) (elems s),
             tests := tests s @ [0 ..< length (elems s)],
             calls := calls s @ filter (\<lambda>i. p (elems s ! i)) [0 ..< length (elems s)]\<rparr>)"
proof -
  let ?xs = "elems s"
  let ?tw = "takeWhile (\<lambda>x. \<not> p x) ?xs" and ?dw = "dropWhile (\<lambda>x. \<not> p x) ?xs"
  let ?k = "first_match p ?xs" and ?n = "length ?xs"
  let ?s1 = "s\<lparr>tests := tests s @ [0 ..< min (Suc ?k) ?n]\<rparr>"
  have k: "?k = length ?tw"
    by (simp add: first_match_def)
  have n: "length ?tw + length ?dw = ?n"
    by (metis length_append takeWhile_dropWhile_id)
  have "find_if p s 0 ?n = Some (?k, ?s1)"
    using find_if_split [of s "[]" ?xs p] by simp
  then have bg: "filter_begin p None s = Some (?k, Some ?k, ?s1)"
    by (simp add: filter_begin_def)
  have e1: "elems ?s1 = ?tw @ ?dw"
    by simp
  have "?dw \<noteq> [] \<longrightarrow> p (hd ?dw)"
    using dropWhile_hd_match [of p ?xs] by blast
  moreover have "\<forall>x\<in>set ?dw. p x \<longrightarrow> f x = Some (m x, ())"
    using f set_dropWhileD [of _ "\<lambda>x. \<not> p x" ?xs] by auto
  ultimately have lp: "for_each_loop p f ?s1 ?k ?n =
      Some (?s1\<lparr>elems := ?tw @ map (mutated p m) ?dw,
                tests := tests ?s1 @ [Suc ?k ..< ?n],
                calls := calls ?s1 @ match_positions p ?k ?dw\<rparr>)"
    using for_each_loop_split [OF e1, of p f m] n by (simp add: k)
  have el: "?tw @ map (mutated p m) ?dw = map (mutated p m) ?xs"
    using map_mutated_skip [of p m ?xs] by simp
  have kn: "?k \<le> ?n"
    by (rule first_match_le)
  have ts: "[0 ..< min (Suc ?k) ?n] @ [Suc ?k ..< ?n] = [0 ..< ?n]"
  proof (cases "?k < ?n")
    case True
    then have "[0 ..< Suc ?k] @ [Suc ?k ..< ?n] = [0 ..< ?n]"
      by (intro upt_join) simp_all
    with True show ?thesis by (simp add: min_def)
  next
    case False
    with kn have "?k = ?n" by simp
    then show ?thesis by simp
  qed
  have cs: "match_positions p ?k ?dw = filter (\<lambda>i. p (?xs ! i)) [0 ..< ?n]"
    using match_positions_skip [of p 0 ?xs] match_positions_filter [of p 0 ?xs] by simp
  show ?thesis
    using bg lp el ts cs by (simp add: for_each_def filter_end_def)
qed

text \<open>
  Claim C4. For every vector, predicate and mutator the traversal returns, and it leaves
  \<open>m x\<close> in exactly those positions whose value \<open>x\<close> before the call satisfies the
  predicate and every other value as it was; the mutator is invoked once at each of
  these positions, in ascending order, and the predicate is evaluated once at each
  position, in ascending order. The length of the vector and the order of its elements
  are kept.
\<close>

theorem for_each_mutates_exactly_the_matches:
  "for_each p (by_reference m) (fresh xs) =
     Some \<lparr>elems = map (\<lambda>x. if p x then m x else x) xs,
           tests = [0 ..< length xs],
           calls = filter (\<lambda>i. p (xs ! i)) [0 ..< length xs]\<rparr>
   \<and> map_option (length \<circ> elems) (for_each p (by_reference m) (fresh xs)) = Some (length xs)"
  using for_each_result [of "fresh xs" p "by_reference m" m]
  by (simp add: fresh_def by_reference_def mutated_def [abs_def])

text \<open>
  Claim C8. On the empty vector the traversal changes nothing and invokes the callable
  at no position. For a predicate that holds for no element of the vector, and for the
  predicate that is always false, the vector is unchanged after the traversal, the
  callable was invoked at no position, and the predicate was evaluated once at every
  position.
\<close>

theorem for_each_empty_and_no_match:
  "for_each p f (fresh []) = Some (fresh [])
   \<and> ((\<forall>x\<in>set xs. \<not> p x) \<longrightarrow>
        for_each p f (fresh xs) = Some \<lparr>elems = xs, tests = [0 ..< length xs], calls = []\<rparr>)
   \<and> for_each (\<lambda>x. False) f (fresh xs) =
        Some \<lparr>elems = xs, tests = [0 ..< length xs], calls = []\<rparr>"
proof -
  have none: "for_each q f (fresh ys) = Some \<lparr>elems = ys, tests = [0 ..< length ys], calls = []\<rparr>"
    if "\<forall>x\<in>set ys. \<not> q x" for q ys
  proof -
    have "map (mutated q id) ys = ys"
      using that by (simp add: mutated_def map_idI)
    moreover have "filter (\<lambda>i. q (ys ! i)) [0 ..< length ys] = []"
      using that by (simp add: filter_empty_conv)
    ultimately show ?thesis
      using for_each_result [of "fresh ys" q f id] that by (simp add: fresh_def)
  qed
  from none [of "[]" p] have "for_each p f (fresh []) = Some (fresh [])"
    by (simp add: fresh_def)
  moreover have "for_each (\<lambda>x. False) f (fresh xs) =
        Some \<lparr>elems = xs, tests = [0 ..< length xs], calls = []\<rparr>"
    by (rule none) simp
  ultimately show ?thesis
    using none [of xs p] by blast
qed

theorem for_each_empty_and_no_match_witness:
  "for_each even_i for_each_fn (fresh [1, 3, 5]) =
     Some \<lparr>elems = [1, 3, 5], tests = [0, 1, 2], calls = []\<rparr>"
  using for_each_empty_and_no_match [of even_i for_each_fn "[1, 3, 5]"]
  by (simp add: even_i_iff)

lemma even_sint: "even (sint (w::i32)) = even w"
  using bit_sint_iff [of w 0] by (simp add: bit_0)

lemma even_i_not_max: "even_i x \<Longrightarrow> x \<noteq> INT_MAX"
  by (auto simp: even_i_iff INT_MAX_def)

lemma even_i_add1: "even_i x \<Longrightarrow> odd (sint (x + 1))"
  by (simp add: even_i_iff even_sint)

lemma even_i_incr_no_overflow: "even_i x \<Longrightarrow> sint (x + 1) = sint x + 1"
proof -
  assume "even_i x"
  then have ev: "even (sint x)"
    by (simp add: even_i_iff)
  have "sint x < 2 ^ 31" "- (2 ^ 31) \<le> sint x"
    using sint_lt [of x] sint_ge [of x] by simp_all
  moreover from ev have "sint x \<noteq> 2 ^ 31 - 1"
    by auto
  ultimately have "- (2 ^ 31) \<le> sint x + 1" "sint x + 1 < 2 ^ 31"
    by simp_all
  then have "signed_take_bit 31 (sint x + 1) = sint x + 1"
    by (simp add: signed_take_bit_int_eq_self)
  then show ?thesis
    by (simp add: sint_word_add)
qed

text \<open>
  Claim C9. For every vector \<open>xs\<close> of integers the traversal of \<open>use_for_each\<close>, with
  the predicate \<open>even_i\<close> and the incrementing mutator, returns the vector of the same
  length in which every even element \<open>x\<close> of \<open>xs\<close> is replaced by \<open>x + 1\<close> and every
  odd element is kept (the mutator having been invoked once at each even position and
  the predicate evaluated once at each position); every element of this vector is odd;
  and the increment of an even element never overflows, its signed value is that of
  \<open>x\<close> plus one.
\<close>

theorem for_each_even_increment_all_odd:
  "for_each even_i for_each_fn (fresh xs) =
     Some \<lparr>elems = map (\<lambda>x. if even_i x then x + 1 else x) xs,
           tests = [0 ..< length xs],
           calls = filter (\<lambda>i. even_i (xs ! i)) [0 ..< length xs]\<rparr>
   \<and> (\<forall>x\<in>set (map (\<lambda>x. if even_i x then x + 1 else x) xs). odd (sint x))
   \<and> (\<forall>x\<in>set xs. even_i x \<longrightarrow> sint (x + 1) = sint x + 1)"
proof -
  have "\<forall>x\<in>set (elems (fresh xs)). even_i x \<longrightarrow> for_each_fn x = Some (x + 1, ())"
    using even_i_not_max by (simp add: for_each_fn_def)
  from for_each_result [OF this]
  have "for_each even_i for_each_fn (fresh xs) =
     Some \<lparr>elems = map (\<lambda>x. if even_i x then x + 1 else x) xs,
           tests = [0 ..< length xs],
           calls = filter (\<lambda>i. even_i (xs ! i)) [0 ..< length xs]\<rparr>"
    by (simp add: fresh_def mutated_def [abs_def])
  moreover have "odd (sint (if even_i x then x + 1 else x))" for x
    using even_i_add1 [of x] by (simp add: even_i_iff)
  then have "\<forall>x\<in>set (map (\<lambda>x. if even_i x then x + 1 else x) xs). odd (sint x)"
    unfolding set_map by blast
  moreover have "\<forall>x\<in>set xs. even_i x \<longrightarrow> sint (x + 1) = sint x + 1"
    using even_i_incr_no_overflow by blast
  ultimately show ?thesis
    by blast
qed

theorem for_each_even_increment_all_odd_witness:
  "for_each even_i for_each_fn (fresh [2, 7, - 4, 0]) =
     Some \<lparr>elems = [3, 7, - 3, 1], tests = [0, 1, 2, 3], calls = [0, 2, 3]\<rparr>
   \<and> list_all (\<lambda>x. odd (sint x)) [3, 7, - 3, 1 :: i32]"
  using for_each_even_increment_all_odd [of "[2, 7, - 4, 0]"]
  by (simp add: even_i_iff)

section \<open>The pipeline, for every vector\<close>

text \<open>
  Stepping the filter iterator back from \<open>cur\<close> is defined as soon as some element
  before \<open>cur\<close> satisfies the predicate, and stops at the last such element.
\<close>

lemma prev_match_spec:
  "cur \<le> length xs \<Longrightarrow> filter p (take cur xs) \<noteq> [] \<Longrightarrow>
   prev_match p xs cur < cur \<and> p (xs ! prev_match p xs cur) \<and>
   filter p (take cur xs) = filter p (take (prev_match p xs cur) xs) @ [xs ! prev_match p xs cur]"
proof (induction cur)
  case 0
  then show ?case by simp
next
  case (Suc i)
  then have tk: "take (Suc i) xs = take i xs @ [xs ! i]"
    by (simp add: take_Suc_conv_app_nth)
  show ?case
  proof (cases "p (xs ! i)")
    case True
    then show ?thesis by (simp add: tk)
  next
    case False
    with Suc.prems tk have "filter p (take i xs) \<noteq> []" by simp
    with Suc.IH Suc.prems False tk show ?thesis
      by (simp add: less_SucI)
  qed
qed

lemma filter_prev_spec:
  "cur \<le> length (elems s) \<Longrightarrow> filter p (take cur (elems s)) \<noteq> [] \<Longrightarrow>
   \<exists>s'. filter_prev p s cur = Some (prev_match p (elems s) cur, s') \<and> elems s' = elems s"
proof (induction cur arbitrary: s)
  case 0
  then show ?case by simp
next
  case (Suc i)
  then have tk: "take (Suc i) (elems s) = take i (elems s) @ [elems s ! i]"
    by (simp add: take_Suc_conv_app_nth)
  from Suc.prems
  have ev: "eval_pred p s i = Some (p (elems s ! i), s\<lparr>tests := tests s @ [i]\<rparr>)"
    by (simp add: eval_pred_in_range)
  show ?case
  proof (cases "p (elems s ! i)")
    case True
    with ev show ?thesis by simp
  next
    case False
    let ?s1 = "s\<lparr>tests := tests s @ [i]\<rparr>"
    from Suc.prems tk False have "filter p (take i (elems ?s1)) \<noteq> []" "i \<le> length (elems ?s1)"
      by simp_all
    from Suc.IH [OF this(2) this(1)] ev False show ?thesis
      by simp
  qed
qed

lemma first_match_take: "filter p (take (first_match p xs) xs) = []"
proof -
  have "take (first_match p xs) xs = takeWhile (\<lambda>x. \<not> p x) xs"
    by (simp add: first_match_def takeWhile_eq_take [symmetric])
  then show ?thesis
    by (auto simp: filter_empty_conv dest: set_takeWhileD)
qed

lemma first_match_least: "j < length xs \<Longrightarrow> p (xs ! j) \<Longrightarrow> first_match p xs \<le> j"
proof (rule ccontr)
  assume j: "j < length xs" "p (xs ! j)" and "\<not> first_match p xs \<le> j"
  then have "j < length (takeWhile (\<lambda>x. \<not> p x) xs)"
    by (simp add: first_match_def)
  then have "\<not> p (xs ! j)"
    using nth_mem set_takeWhileD takeWhile_nth by (metis (mono_tags, lifting))
  with j show False by simp
qed

lemma first_match_holds: "first_match p xs < length xs \<Longrightarrow> p (xs ! first_match p xs)"
  using nth_length_takeWhile [of "\<lambda>x. \<not> p x" xs] by (simp add: first_match_def)

lemma filter_take_nonempty:
  assumes "first_match p xs < cur" "cur \<le> length xs"
  shows "filter p (take cur xs) \<noteq> []"
proof -
  let ?e = "first_match p xs"
  from assms have "?e < length xs"
    by simp
  then have "p (xs ! ?e)"
    by (rule first_match_holds)
  moreover from assms have "xs ! ?e \<in> set (take cur xs)"
    by (metis in_set_conv_nth length_take min.absorb2 nth_take)
  ultimately show ?thesis
    by (auto simp: filter_empty_conv)
qed

declare show_loop.simps [simp del]

text \<open>
  The loop of \<^verbatim>\<open>show\<close> over the reversed view, for a mapper that leaves the elements
  it is invoked on as they are and returns \<open>g x\<close>: started with the base iterator at
  \<open>cur\<close> and the begin of the filter view as its end, it writes the mapped matches
  before \<open>cur\<close>, last first, and leaves the vector as it was.
\<close>

lemma show_loop_spec:
  "\<forall>x\<in>set (elems s). p x \<longrightarrow> f x = Some (x, g x) \<Longrightarrow>
   first_match p (elems s) \<le> cur \<Longrightarrow> cur \<le> length (elems s) \<Longrightarrow>
   \<exists>s'. show_loop p f s cur (first_match p (elems s)) out =
           Some (out @ map g (rev (filter p (take cur (elems s)))), s')
        \<and> elems s' = elems s"
proof (induction cur arbitrary: s out rule: less_induct)
  case (less cur)
  let ?xs = "elems s"
  let ?e = "first_match p ?xs"
  show ?case
  proof (cases "cur = ?e")
    case True
    then show ?thesis
      by (simp add: show_loop.simps [of p f s] first_match_take)
  next
    case False
    with less.prems have ne: "filter p (take cur ?xs) \<noteq> []"
      by (intro filter_take_nonempty) simp_all
    let ?j = "prev_match p ?xs cur"
    from prev_match_spec [OF less.prems(3) ne]
    have j: "?j < cur" "p (?xs ! ?j)"
      and fl: "filter p (take cur ?xs) = filter p (take ?j ?xs) @ [?xs ! ?j]"
      by simp_all
    from j less.prems(3) have jn: "?j < length ?xs"
      by simp
    from filter_prev_spec [OF less.prems(3) ne]
    obtain s1 where s1: "filter_prev p s cur = Some (?j, s1)" "elems s1 = ?xs"
      by blast
    from less.prems(1) j jn have fj: "f (?xs ! ?j) = Some (?xs ! ?j, g (?xs ! ?j))"
      by simp
    let ?s2 = "s1\<lparr>elems := (elems s1)[?j := ?xs ! ?j], calls := calls s1 @ [?j]\<rparr>"
    have inv: "invoke f s1 ?j = Some (g (?xs ! ?j), ?s2)"
      using jn s1(2) fj by (simp add: invoke_in_range)
    have e2: "elems ?s2 = ?xs"
      using s1(2) by simp
    from filter_prev_spec [of cur ?s2 p] less.prems(3) ne e2
    obtain s3 where s3: "filter_prev p ?s2 cur = Some (?j, s3)" "elems s3 = ?xs"
      by auto
    have "?e \<le> ?j"
      using j jn by (intro first_match_least) 
    with less.IH [of ?j s3 "out @ [g (?xs ! ?j)]"] j jn s3(2) less.prems(1)
    obtain s' where s': "show_loop p f s3 ?j ?e (out @ [g (?xs ! ?j)]) =
        Some ((out @ [g (?xs ! ?j)]) @ map g (rev (filter p (take ?j ?xs))), s')"
        "elems s' = ?xs"
      by auto
    show ?thesis
      using False s1 inv s3 s' fl
      by (simp add: show_loop.simps [of p f s] reverse_deref_def transform_deref_def
          reverse_next_def)
  qed
qed

text \<open>
  One consumption of the pipeline, with nothing remembered by the filter view or with
  the position of the first match of the present vector remembered.
\<close>

lemma show_view_spec:
  assumes f: "\<forall>x\<in>set (elems s). p x \<longrightarrow> f x = Some (x, g x)"
    and c: "cached = None \<or> cached = Some (first_match p (elems s))"
  shows "\<exists>s'. show_view p f cached s =
           Some (rev (map g (filter p (elems s))), Some (first_match p (elems s)), s')
        \<and> elems s' = elems s"
proof -
  let ?xs = "elems s"
  let ?e = "first_match p ?xs"
  have "\<exists>s1. filter_begin p cached s = Some (?e, Some ?e, s1) \<and> elems s1 = ?xs"
  proof (cases cached)
    case None
    then show ?thesis
      using find_if_split [of s "[]" ?xs p] by (simp add: filter_begin_def)
  next
    case (Some i)
    with c show ?thesis by (simp add: filter_begin_def)
  qed
  then obtain s1 where s1: "filter_begin p cached s = Some (?e, Some ?e, s1)" "elems s1 = ?xs"
    by blast
  from show_loop_spec [of s1 p f g "length ?xs" "[]"] f s1(2) first_match_le [of p ?xs]
  obtain s' where "show_loop p f s1 (length ?xs) ?e [] = Some (map g (rev (filter p ?xs)), s')"
    "elems s' = ?xs"
    by auto
  with s1 show ?thesis
    by (simp add: show_view_def reverse_begin_def reverse_end_def filter_end_def rev_map)
qed


lemma by_value_on_matches: "\<forall>x\<in>set xs. p x \<longrightarrow> by_value g x = Some (x, g x)"
  by (simp add: by_value_def)

lemma is_even_not_max: "is_even x \<Longrightarrow> x \<noteq> INT_MAX"
  by (auto simp: is_even_iff INT_MAX_def)

lemma transform_fn_on_matches:
  "\<forall>x\<in>set xs. is_even x \<longrightarrow> transform_fn x = Some (x, x + 1)"
  using is_even_not_max by (simp add: transform_fn_def)

text \<open>
  Claim C3. For every vector \<open>xs\<close>, predicate \<open>p\<close> and mapper \<open>g\<close>, consuming the
  pipeline returns, and what it writes is the reverse of the list of \<open>g x\<close> for the
  elements \<open>x\<close> of \<open>xs\<close> that satisfy \<open>p\<close>, in their order in \<open>xs\<close>. For the empty
  vector, and for a predicate that no element satisfies, it writes nothing.
\<close>

theorem pipeline_is_rev_map_filter:
  "map_option fst (show_view p (by_value g) (build_pipeline (fresh xs)) (fresh xs)) =
     Some (rev (map g (filter p xs)))
   \<and> map_option fst (show_view p (by_value g) (build_pipeline (fresh [])) (fresh [])) = Some []
   \<and> ((\<forall>x\<in>set xs. \<not> p x) \<longrightarrow>
        map_option fst (show_view p (by_value g) (build_pipeline (fresh xs)) (fresh xs)) = Some [])"
proof -
  have "map_option fst (show_view p (by_value g) (build_pipeline (fresh ys)) (fresh ys)) =
     Some (rev (map g (filter p ys)))" for ys
    using show_view_spec [of "fresh ys" p "by_value g" g None] by_value_on_matches [of _ p g]
    by (auto simp: build_pipeline_def fresh_def)
  note run = this
  have "map_option fst (show_view p (by_value g) (build_pipeline (fresh xs)) (fresh xs)) = Some []"
    if "\<forall>x\<in>set xs. \<not> p x"
  proof -
    from that have "filter p xs = []"
      by (simp add: filter_empty_conv)
    then show ?thesis
      unfolding run [of xs] by simp
  qed
  with run [of xs] run [of "[]"] show ?thesis
    by simp
qed

theorem pipeline_is_rev_map_filter_witness:
  "map_option fst
     (show_view is_even (by_value (\<lambda>n. n + 1)) (build_pipeline (fresh [1, 3, 5])) (fresh [1, 3, 5]))
   = Some []"
  using pipeline_is_rev_map_filter [of is_even "\<lambda>n. n + 1" "[1, 3, 5]"]
  by (simp add: is_even_iff)

text \<open>
  Claim C5. For every vector \<open>xs\<close>, building the pipeline of \<open>main\<close> (predicate
  \<open>is_even\<close>, mapper \<open>transform_fn\<close>) over it and consuming it returns with every
  element of the vector equal to its value before: the mapper increments its own copy
  of the element.
\<close>

theorem pipeline_leaves_source_unchanged:
  "map_option (\<lambda>(out, cached, s'). elems s')
     (show_view is_even transform_fn (build_pipeline (fresh xs)) (fresh xs)) = Some xs"
  using show_view_spec [of "fresh xs" is_even transform_fn "\<lambda>n. n + 1" None]
    transform_fn_on_matches [of xs]
  by (auto simp: build_pipeline_def fresh_def)

text \<open>
  Claim C6. For every vector, predicate and mapper, consuming the pipeline and then
  consuming the same pipeline object again, with the vector as the first consumption
  left it (unchanged), writes the same sequence both times.
\<close>

theorem pipeline_consumed_twice_same_output:
  "\<exists>out c1 s1 c2 s2.
     show_view p (by_value g) (build_pipeline (fresh xs)) (fresh xs) = Some (out, c1, s1)
     \<and> elems s1 = xs
     \<and> show_view p (by_value g) c1 s1 = Some (out, c2, s2)"
proof -
  let ?e = "first_match p xs" and ?out = "rev (map g (filter p xs))"
  from show_view_spec [of "fresh xs" p "by_value g" g None] by_value_on_matches [of _ p g]
  obtain s1 where s1:
    "show_view p (by_value g) (build_pipeline (fresh xs)) (fresh xs) = Some (?out, Some ?e, s1)"
    "elems s1 = xs"
    by (auto simp: build_pipeline_def fresh_def)
  from show_view_spec [of s1 p "by_value g" g "Some ?e"] by_value_on_matches [of _ p g] s1(2)
  obtain s2 where "show_view p (by_value g) (Some ?e) s1 = Some (?out, Some ?e, s2)"
    by auto
  with s1 show ?thesis
    by blast
qed

text \<open>
  Claim C7, as amended. The pipeline holds no copy of the vector taken when it is built:
  when it is built over the store \<open>s\<close> and the vector is then replaced by any \<open>ys\<close>
  before the pipeline is consumed for the first time, that first consumption returns,
  what it writes is the filter, transform, reverse result of \<open>ys\<close>, the vector at the
  time of the consumption, the begin position the filter view remembers from then on is
  the position of the first match in \<open>ys\<close>, and the vector is still \<open>ys\<close>.
\<close>

theorem pipeline_reads_source_at_consumption:
  "map_option fst (show_view p (by_value g) (build_pipeline s) (s\<lparr>elems := ys\<rparr>)) =
     Some (rev (map g (filter p ys)))
   \<and> map_option (fst \<circ> snd) (show_view p (by_value g) (build_pipeline s) (s\<lparr>elems := ys\<rparr>)) =
     Some (Some (first_match p ys))
   \<and> map_option (elems \<circ> snd \<circ> snd)
       (show_view p (by_value g) (build_pipeline s) (s\<lparr>elems := ys\<rparr>)) = Some ys"
  using show_view_spec [of "s\<lparr>elems := ys\<rparr>" p "by_value g" g None] by_value_on_matches [of _ p g]
  by (auto simp: build_pipeline_def)

text \<open>
  Claim C7, as stated for every consumption, fails: the begin position remembered by
  the filter view is not searched again. The pipeline of \<open>main\<close> built over \<open>[1,2]\<close>
  and consumed once writes \<open>[3]\<close> and remembers position 1. When the vector is then
  replaced by \<open>[2,2]\<close>, the second consumption of the same pipeline object stops at
  position 1 and writes \<open>[3]\<close>, whereas the filter, transform, reverse result of the
  vector at that time, which a pipeline newly built over \<open>[2,2]\<close> writes, is \<open>[3,3]\<close>.
\<close>

theorem second_consumption_uses_remembered_begin:
  "show_view is_even transform_fn (build_pipeline (fresh [1, 2])) (fresh [1, 2]) =
     Some ([3], Some 1, \<lparr>elems = [1, 2], tests = [0, 1, 1, 1], calls = [1]\<rparr>)
   \<and> map_option fst
       (show_view is_even transform_fn (Some 1)
          (\<lparr>elems = [1, 2], tests = [0, 1, 1, 1], calls = [1]\<rparr>\<lparr>elems := [2, 2]\<rparr>)) = Some [3]
   \<and> map_option fst
       (show_view is_even transform_fn (build_pipeline (fresh [2, 2])) (fresh [2, 2])) = Some [3, 3]
   \<and> map_option fst
       (show_view is_even transform_fn (Some 1)
          (\<lparr>elems = [1, 2], tests = [0, 1, 1, 1], calls = [1]\<rparr>\<lparr>elems := [2, 2]\<rparr>)) \<noteq> Some [3, 3]"
  by code_simp

end
